theory Spec2Isabelle
  imports Main "HOL-Library.Multiset"
begin

section \<open>Characters and strings\<close>

text \<open>
  A Python \<open>str\<close> is modelled as a \<open>string\<close>: a list of 8-bit characters, read as the code
  points 0..255 (Latin-1).  On this range \<open>str.lower()\<close> works character by character and
  never changes the length, so it is a \<open>map\<close>.
\<close>

definition code :: "char \<Rightarrow> nat" where
  "code c = of_char c"

text \<open>The character class \<open>[a-z]\<close> of the pattern.\<close>

definition is_az :: "char \<Rightarrow> bool" where
  "is_az c = (97 \<le> code c \<and> code c \<le> 122)"

text \<open>
  \<open>\w\<close> of the \<open>re\<close> module on a \<open>str\<close> pattern: the alphanumeric characters and the
  underscore.  Below 128 these are \<open>[A-Za-z0-9_]\<close>; from 128 to 255 they are the letters,
  the superscript digits and the vulgar fractions of Latin-1.
\<close>

definition is_word :: "char \<Rightarrow> bool" where
  "is_word c = (let n = code c in
     (48 \<le> n \<and> n \<le> 57) \<or> (65 \<le> n \<and> n \<le> 90) \<or> n = 95 \<or> (97 \<le> n \<and> n \<le> 122) \<or>
     n = 170 \<or> n = 178 \<or> n = 179 \<or> n = 181 \<or> n = 185 \<or> n = 186 \<or>
     (188 \<le> n \<and> n \<le> 190) \<or> (192 \<le> n \<and> n \<le> 214) \<or> (216 \<le> n \<and> n \<le> 246) \<or>
     (248 \<le> n \<and> n \<le> 255))"

text \<open>\<open>str.lower()\<close> on one character: \<open>A-Z\<close> and the capital letters of Latin-1 move up by 32.\<close>

definition lower_char :: "char \<Rightarrow> char" where
  "lower_char c = (let n = code c in
     if (65 \<le> n \<and> n \<le> 90) \<or> (192 \<le> n \<and> n \<le> 214) \<or> (216 \<le> n \<and> n \<le> 222)
     then char_of (n + 32) else c)"

definition lower :: "string \<Rightarrow> string" where
  "lower s = map lower_char s"

section \<open>The pattern \<open>\b[a-z]+\b\<close> and \<open>re.findall\<close>\<close>

text \<open>
  The scan keeps, besides the rest of the string from the current position, whether a
  character stands before the position and is a word character (\<open>pw\<close>).
  \<open>\b\<close> holds at a position when exactly one of the characters before and after it is a
  word character; a missing character (either edge of the string) counts as a non-word one.
\<close>

definition word_boundary :: "bool \<Rightarrow> string \<Rightarrow> bool" where
  "word_boundary pw rest = (pw \<noteq> (rest \<noteq> [] \<and> is_word (hd rest)))"

text \<open>
  \<open>boundary_after rest k\<close>: \<open>\b\<close> at the position \<open>k\<close> characters further on, \<open>0 < k\<close>.
\<close>

definition boundary_after :: "string \<Rightarrow> nat \<Rightarrow> bool" where
  "boundary_after rest k = word_boundary (is_word (rest ! (k - 1))) (drop k rest)"

text \<open>
  The greedy \<open>[a-z]+\<close> takes the longest run first and gives characters back one at a time
  until the closing \<open>\b\<close> holds; with no character left the match fails.
\<close>

fun backtrack :: "string \<Rightarrow> nat \<Rightarrow> nat option" where
  "backtrack rest 0 = None"
| "backtrack rest (Suc k) =
     (if boundary_after rest (Suc k) then Some (Suc k) else backtrack rest k)"

text \<open>The length of the match of the pattern at the current position, if there is one.\<close>

definition match_here :: "bool \<Rightarrow> string \<Rightarrow> nat option" where
  "match_here pw rest =
     (if word_boundary pw rest then backtrack rest (length (takeWhile is_az rest)) else None)"

text \<open>
  \<open>re.findall\<close>: the matches from left to right, none overlapping.  After a match the scan
  goes on behind it; where the pattern does not match it moves one character on.
\<close>

function findall :: "bool \<Rightarrow> string \<Rightarrow> string list" where
  "findall pw rest =
     (case match_here pw rest of
        Some k \<Rightarrow> take k rest # findall (is_word (rest ! (k - 1))) (drop k rest)
      | None \<Rightarrow> (case rest of [] \<Rightarrow> [] | c # cs \<Rightarrow> findall (is_word c) cs))"
  by pat_completeness auto
termination
proof (relation "measure (\<lambda>(pw, rest). length rest)")
  show "wf (measure (\<lambda>(pw, rest). length rest))" by simp
next
  fix pw :: bool and rest :: string and k :: nat
  assume m: "match_here pw rest = Some k"
  have bt: "backtrack rest n = Some k \<Longrightarrow> 0 < k \<and> k \<le> n" for n
    by (induction n) (auto split: if_splits)
  from m have "backtrack rest (length (takeWhile is_az rest)) = Some k"
    by (simp add: match_here_def split: if_splits)
  then have "0 < k \<and> k \<le> length (takeWhile is_az rest)" by (rule bt)
  moreover have "length (takeWhile is_az rest) \<le> length rest"
    by (rule length_takeWhile_le)
  ultimately have "0 < k \<and> k \<le> length rest" by simp
  then show "((is_word (rest ! (k - 1)), drop k rest), (pw, rest))
               \<in> measure (\<lambda>(pw, rest). length rest)"
    by auto
next
  fix pw :: bool and rest :: string and c :: char and cs :: string
  assume "rest = c # cs"
  then show "((is_word c, cs), (pw, rest)) \<in> measure (\<lambda>(pw, rest). length rest)"
    by simp
qed

declare findall.simps [simp del]

section \<open>The word analyzer\<close>

text \<open>\<open>WordAnalyzer\<close>: the constructor stores \<open>min_occurrences\<close> as it is given, default 3.\<close>

record WordAnalyzer =
  min_occurrences :: int

definition WordAnalyzer_init :: "int \<Rightarrow> WordAnalyzer" where
  "WordAnalyzer_init m = \<lparr> min_occurrences = m \<rparr>"

definition WordAnalyzer_default :: WordAnalyzer where
  "WordAnalyzer_default = WordAnalyzer_init 3"

text \<open>
  The words of one header: lowercase, \<open>re.findall(r'\b[a-z]+\b', header_lower)\<close> from the
  start of the string, then the comprehension keeping \<open>len(word) > 2\<close>.
\<close>

definition header_words :: "string \<Rightarrow> string list" where
  "header_words header = filter (\<lambda>word. length word > 2) (findall False (lower header))"

definition all_words :: "string list \<Rightarrow> string list" where
  "all_words headers = concat (map header_words headers)"

section \<open>Dictionaries\<close>

text \<open>
  A \<open>dict\<close> (and a \<open>Counter\<close>, which is one) keeps its keys in insertion order, and the
  order shows in \<open>items()\<close>: it is modelled as the list of its items.  Assigning to a key
  that is present replaces the value where the key stands; a new key goes to the end.
\<close>

fun dict_set :: "'k \<Rightarrow> 'v \<Rightarrow> ('k \<times> 'v) list \<Rightarrow> ('k \<times> 'v) list" where
  "dict_set k v [] = [(k, v)]"
| "dict_set k v ((k', v') # d) =
     (if k' = k then (k', v) # d else (k', v') # dict_set k v d)"

definition dict_get :: "('k \<times> 'v) list \<Rightarrow> 'k \<Rightarrow> 'v \<Rightarrow> 'v" where
  "dict_get d k dflt = (case map_of d k of Some v \<Rightarrow> v | None \<Rightarrow> dflt)"

text \<open>\<open>dict(pairs)\<close> and the dict comprehension: the pairs are assigned one after the other.\<close>

definition dict_of_items :: "('k \<times> 'v) list \<Rightarrow> ('k \<times> 'v) list" where
  "dict_of_items items = fold (\<lambda>(k, v) d. dict_set k v d) items []"

text \<open>\<open>Counter(iterable)\<close>: for each element, \<open>self[elem] = self.get(elem, 0) + 1\<close>.\<close>

definition Counter :: "'a list \<Rightarrow> ('a \<times> int) list" where
  "Counter elems = fold (\<lambda>elem d. dict_set elem (dict_get d elem 0 + 1) d) elems []"

text \<open>
  A well-formed dictionary has each key once.
\<close>

definition wf_dict :: "('k \<times> 'v) list \<Rightarrow> bool" where
  "wf_dict d = distinct (map fst d)"

section \<open>Counting, filtering, ranking\<close>

definition count_words :: "string list \<Rightarrow> (string \<times> int) list" where
  "count_words headers = Counter (all_words headers)"

definition filter_repeated_words :: "WordAnalyzer \<Rightarrow> (string \<times> int) list \<Rightarrow> (string \<times> int) list" where
  "filter_repeated_words self word_counts =
     dict_of_items (filter (\<lambda>(word, count). count \<ge> min_occurrences self) word_counts)"

text \<open>
  \<open>sorted(xs, key=key, reverse=True)\<close>: the list is reversed, sorted by a stable ascending
  sort, and reversed again.  Every stable sort gives the same list, so the insertion sort
  \<open>sort_key\<close> stands for it.
\<close>

definition sorted_reverse :: "('a \<Rightarrow> 'b::linorder) \<Rightarrow> 'a list \<Rightarrow> 'a list" where
  "sorted_reverse key xs = rev (sort_key key (rev xs))"

definition analyze_headers :: "WordAnalyzer \<Rightarrow> string list \<Rightarrow> (string \<times> int) list" where
  "analyze_headers self translated_headers =
     (let word_counts = count_words translated_headers;
          repeated_words = filter_repeated_words self word_counts
      in dict_of_items (sorted_reverse snd repeated_words))"

text \<open>
  The analysis has one error kind in its specification.  \<open>filter_repeated_words\<close> has no
  \<open>raise\<close> and compares integers only, so the outcome of a call is always a normal return.
\<close>

datatype error = InvalidConfiguration

definition filter_outcome :: "WordAnalyzer \<Rightarrow> (string \<times> int) list \<Rightarrow> error + (string \<times> int) list" where
  "filter_outcome self word_counts = Inr (filter_repeated_words self word_counts)"

section \<open>The translator\<close>

text \<open>
  The translation service is outside the program: \<open>translator self n text src dest\<close> is the
  outcome of the \<open>n\<close>-th request made to it, \<open>None\<close> when the request raises.  The number
  of requests made so far is the state threaded through the calls.  Logging and the pauses
  between requests change no value and are left out.
\<close>

record ArticleTranslator =
  translator :: "nat \<Rightarrow> string \<Rightarrow> string \<Rightarrow> string \<Rightarrow> string option"
  source_lang :: string
  target_lang :: string

text \<open>
  The loop \<open>for attempt in range(retry_count)\<close> of \<open>translate_text\<close>, on the attempts that
  are left: a result is returned at once; after a failure the loop goes on while
  \<open>attempt < retry_count - 1\<close> and returns the original text otherwise.  The text is also
  returned when the range is exhausted.
\<close>

fun translate_attempts :: "ArticleTranslator \<Rightarrow> string \<Rightarrow> int \<Rightarrow> nat list \<Rightarrow> nat \<Rightarrow> string \<times> nat" where
  "translate_attempts self text retry_count [] n = (text, n)"
| "translate_attempts self text retry_count (attempt # rest) n =
     (case translator self n text (source_lang self) (target_lang self) of
        Some translated \<Rightarrow> (translated, Suc n)
      | None \<Rightarrow>
          if int attempt < retry_count - 1
          then translate_attempts self text retry_count rest (Suc n)
          else (text, Suc n))"

definition translate_text :: "ArticleTranslator \<Rightarrow> string \<Rightarrow> int \<Rightarrow> nat \<Rightarrow> string \<times> nat" where
  "translate_text self text retry_count n =
     (if text = [] then ([], n)
      else translate_attempts self text retry_count [0..<nat retry_count] n)"

text \<open>The loop of \<open>translate_titles\<close>, with the list \<open>translated_titles\<close> built so far.\<close>

fun translate_titles_loop :: "ArticleTranslator \<Rightarrow> string list \<Rightarrow> string list \<Rightarrow> nat \<Rightarrow> string list \<times> nat" where
  "translate_titles_loop self [] translated_titles n = (translated_titles, n)"
| "translate_titles_loop self (title # rest) translated_titles n =
     (case translate_text self title 3 n of
        (translated, n') \<Rightarrow> translate_titles_loop self rest (translated_titles @ [translated]) n')"

definition translate_titles :: "ArticleTranslator \<Rightarrow> string list \<Rightarrow> nat \<Rightarrow> string list \<times> nat" where
  "translate_titles self titles n = translate_titles_loop self titles [] n"

text \<open>The number of requests made when the loop reaches the title at index \<open>i\<close>.\<close>

definition requests_before :: "ArticleTranslator \<Rightarrow> string list \<Rightarrow> nat \<Rightarrow> nat \<Rightarrow> nat" where
  "requests_before self titles n i = snd (translate_titles self (take i titles) n)"

text \<open>
  A service for the examples: its first three requests raise, every later one answers
  \<open>world\<close>.
\<close>

definition failing_thrice :: ArticleTranslator where
  "failing_thrice =
     \<lparr> translator = (\<lambda>n text src dest. if n < 3 then None else Some ''world''),
       source_lang = ''es'', target_lang = ''en'' \<rparr>"

section \<open>Notions of the specification\<close>

text \<open>
  The maximal runs of the characters satisfying \<open>P\<close>, from left to right: a run starts at a
  character satisfying \<open>P\<close>, takes all that follow and satisfy \<open>P\<close>, and the search goes
  on behind it.
\<close>

function maximal_runs :: "('a \<Rightarrow> bool) \<Rightarrow> 'a list \<Rightarrow> 'a list list" where
  "maximal_runs P [] = []"
| "maximal_runs P (x # xs) =
     (if P x then takeWhile P (x # xs) # maximal_runs P (dropWhile P xs)
      else maximal_runs P xs)"
  by pat_completeness auto
termination
proof (relation "measure (\<lambda>(P, xs). length xs)")
  show "wf (measure (\<lambda>(P, xs). length xs))" by simp
next
  fix P :: "'a \<Rightarrow> bool" and x :: 'a and xs :: "'a list"
  have "length (dropWhile P xs) \<le> length xs" by (rule length_dropWhile_le)
  then show "((P, dropWhile P xs), (P, x # xs)) \<in> measure (\<lambda>(P, xs). length xs)"
    by simp
next
  fix P :: "'a \<Rightarrow> bool" and x :: 'a and xs :: "'a list"
  show "((P, xs), (P, x # xs)) \<in> measure (\<lambda>(P, xs). length xs)" by simp
qed

text \<open>
  The tokens as the specification words them: the maximal runs of lowercase letters of the
  lowercased string, bounded by any non-alphabetic characters or the edges, of length
  above 2.
\<close>

definition alphabetic_run_tokens :: "string \<Rightarrow> string list" where
  "alphabetic_run_tokens s = filter (\<lambda>w. length w > 2) (maximal_runs is_az (lower s))"

text \<open>
  The tokens with the boundaries of the pattern: the maximal runs of word characters of the
  lowercased string that are made of \<open>a-z\<close> only, of length above 2.
\<close>

definition word_run_tokens :: "string \<Rightarrow> string list" where
  "word_run_tokens s =
     filter (\<lambda>w. length w > 2) (filter (list_all is_az) (maximal_runs is_word (lower s)))"

text \<open>The distinct elements of a list in the order in which each is seen first.\<close>

fun first_seen :: "'a list \<Rightarrow> 'a list" where
  "first_seen [] = []"
| "first_seen (x # xs) = x # filter (\<lambda>y. y \<noteq> x) (first_seen xs)"

text \<open>Descending order of the counts of a list of items.\<close>

definition count_descending :: "('k \<times> int) list \<Rightarrow> bool" where
  "count_descending items = sorted_wrt (\<lambda>p q. snd p \<ge> snd q) items"

section \<open>Strings beyond Latin-1\<close>

text \<open>
  A \<open>str\<close> holds any code point.  For the behaviour of the analysis on letters outside
  Latin-1 a string is also modelled as the list of its code points, a \<open>ustring\<close>, with the
  tables of \<open>str.lower()\<close>, \<open>str.upper()\<close> and \<open>\w\<close> written out for the code points
  up to U+017F: Basic Latin, the Latin-1 Supplement and Latin Extended-A.  \<open>in_tables\<close>
  holds of the strings that stay in this range.  \<open>codes\<close> reads a Latin-1 string as its
  code points.
\<close>

type_synonym ustring = "nat list"

definition codes :: "string \<Rightarrow> ustring" where
  "codes s = map code s"


text \<open>The character class \<open>[a-z]\<close> on code points.\<close>

definition uis_az :: "nat \<Rightarrow> bool" where
  "uis_az n = (97 \<le> n \<and> n \<le> 122)"

text \<open>
  \<open>\w\<close> on the code points up to U+017F: as in Latin-1 up to 255, and every code point of
  Latin Extended-A (256 to 383) is a letter.  The combining dot U+0307, the one code point
  above the range that lowering a string of the range produces, is no word character.
\<close>

definition uis_word :: "nat \<Rightarrow> bool" where
  "uis_word n =
     ((48 \<le> n \<and> n \<le> 57) \<or> (65 \<le> n \<and> n \<le> 90) \<or> n = 95 \<or> (97 \<le> n \<and> n \<le> 122) \<or>
      n = 170 \<or> n = 178 \<or> n = 179 \<or> n = 181 \<or> n = 185 \<or> n = 186 \<or>
      (188 \<le> n \<and> n \<le> 190) \<or> (192 \<le> n \<and> n \<le> 214) \<or> (216 \<le> n \<and> n \<le> 246) \<or>
      (248 \<le> n \<and> n \<le> 383))"

text \<open>
  \<open>str.lower()\<close> on one code point.  The capital letters of Basic Latin and Latin-1 move
  up by 32; in Latin Extended-A capital and small letters alternate, the capital first, on
  the even code points in 256..302, 306..310 and 330..374 and on the odd ones in 313..327
  and 377..381; U+0130 becomes \<open>i\<close> followed by the combining dot U+0307, and U+0178
  becomes U+00FF.  Every other code point, the long s U+017F and the dotless i U+0131
  among them, is unchanged.
\<close>

definition ulower_char :: "nat \<Rightarrow> ustring" where
  "ulower_char n =
     (if (65 \<le> n \<and> n \<le> 90) \<or> (192 \<le> n \<and> n \<le> 214) \<or> (216 \<le> n \<and> n \<le> 222)
      then [n + 32]
      else if n = 304 then [105, 775]
      else if n = 376 then [255]
      else if (even n \<and> ((256 \<le> n \<and> n \<le> 302) \<or> (306 \<le> n \<and> n \<le> 310) \<or>
                           (330 \<le> n \<and> n \<le> 374))) \<or>
              (odd n \<and> ((313 \<le> n \<and> n \<le> 327) \<or> (377 \<le> n \<and> n \<le> 381)))
      then [n + 1]
      else [n])"

definition ulower :: "ustring \<Rightarrow> ustring" where
  "ulower s = concat (map ulower_char s)"



text \<open>
  The scan of \<open>re.findall(r'\b[a-z]+\b', s)\<close> as above, with the classes \<open>[a-z]\<close> (\<open>az\<close>)
  and \<open>\w\<close> (\<open>w\<close>) as parameters, on strings of any kind of character.
\<close>

definition word_boundary_with :: "('a \<Rightarrow> bool) \<Rightarrow> bool \<Rightarrow> 'a list \<Rightarrow> bool" where
  "word_boundary_with w pw rest = (pw \<noteq> (rest \<noteq> [] \<and> w (hd rest)))"

definition boundary_after_with :: "('a \<Rightarrow> bool) \<Rightarrow> 'a list \<Rightarrow> nat \<Rightarrow> bool" where
  "boundary_after_with w rest k = word_boundary_with w (w (rest ! (k - 1))) (drop k rest)"

fun backtrack_with :: "('a \<Rightarrow> bool) \<Rightarrow> 'a list \<Rightarrow> nat \<Rightarrow> nat option" where
  "backtrack_with w rest 0 = None"
| "backtrack_with w rest (Suc k) =
     (if boundary_after_with w rest (Suc k) then Some (Suc k) else backtrack_with w rest k)"

definition match_here_with :: "('a \<Rightarrow> bool) \<Rightarrow> ('a \<Rightarrow> bool) \<Rightarrow> bool \<Rightarrow> 'a list \<Rightarrow> nat option" where
  "match_here_with az w pw rest =
     (if word_boundary_with w pw rest then backtrack_with w rest (length (takeWhile az rest))
      else None)"

function findall_with :: "('a \<Rightarrow> bool) \<Rightarrow> ('a \<Rightarrow> bool) \<Rightarrow> bool \<Rightarrow> 'a list \<Rightarrow> 'a list list" where
  "findall_with az w pw rest =
     (case match_here_with az w pw rest of
        Some k \<Rightarrow> take k rest # findall_with az w (w (rest ! (k - 1))) (drop k rest)
      | None \<Rightarrow> (case rest of [] \<Rightarrow> [] | c # cs \<Rightarrow> findall_with az w (w c) cs))"
  by pat_completeness auto
termination
proof (relation "measure (\<lambda>(az, w, pw, rest). length rest)")
  show "wf (measure (\<lambda>(az, w, pw, rest). length rest))" by simp
next
  fix az w :: "'a \<Rightarrow> bool" and pw :: bool and rest :: "'a list" and k :: nat
  assume m: "match_here_with az w pw rest = Some k"
  have bt: "backtrack_with w rest n = Some k \<Longrightarrow> 0 < k \<and> k \<le> n" for n
    by (induction n) (auto split: if_splits)
  from m have "backtrack_with w rest (length (takeWhile az rest)) = Some k"
    by (simp add: match_here_with_def split: if_splits)
  then have "0 < k \<and> k \<le> length (takeWhile az rest)" by (rule bt)
  moreover have "length (takeWhile az rest) \<le> length rest"
    by (rule length_takeWhile_le)
  ultimately have "0 < k \<and> k \<le> length rest" by simp
  then show "((az, w, w (rest ! (k - 1)), drop k rest), (az, w, pw, rest))
               \<in> measure (\<lambda>(az, w, pw, rest). length rest)"
    by auto
next
  fix az w :: "'a \<Rightarrow> bool" and pw :: bool and rest :: "'a list" and c :: 'a and cs :: "'a list"
  assume "rest = c # cs"
  then show "((az, w, w c, cs), (az, w, pw, rest)) \<in> measure (\<lambda>(az, w, pw, rest). length rest)"
    by simp
qed

declare findall_with.simps [simp del]

text \<open>
  \<open>count_words\<close>, \<open>filter_repeated_words\<close> and \<open>analyze_headers\<close> on lists of code
  points: the same steps as above, with the tables for the code points up to U+017F.
\<close>

definition header_words_u :: "ustring \<Rightarrow> ustring list" where
  "header_words_u header =
     filter (\<lambda>word. length word > 2) (findall_with uis_az uis_word False (ulower header))"

definition all_words_u :: "ustring list \<Rightarrow> ustring list" where
  "all_words_u headers = concat (map header_words_u headers)"

definition count_words_u :: "ustring list \<Rightarrow> (ustring \<times> int) list" where
  "count_words_u headers = Counter (all_words_u headers)"

definition filter_repeated_words_u :: "WordAnalyzer \<Rightarrow> (ustring \<times> int) list \<Rightarrow> (ustring \<times> int) list" where
  "filter_repeated_words_u self word_counts =
     dict_of_items (filter (\<lambda>(word, count). count \<ge> min_occurrences self) word_counts)"

definition analyze_headers_u :: "WordAnalyzer \<Rightarrow> ustring list \<Rightarrow> (ustring \<times> int) list" where
  "analyze_headers_u self translated_headers =
     (let word_counts = count_words_u translated_headers;
          repeated_words = filter_repeated_words_u self word_counts
      in dict_of_items (sorted_reverse snd repeated_words))"




section \<open>Facts about dictionaries\<close>

lemma dict_set_fresh: "k \<notin> fst ` set d \<Longrightarrow> dict_set k v d = d @ [(k, v)]"
  by (induction d) auto

lemma dict_set_keys: "fst ` set (dict_set k v d) = insert k (fst ` set d)"
proof (induction d)
  case Nil
  show ?case by simp
next
  case (Cons p d)
  obtain k' v' where p: "p = (k', v')" by (cases p)
  show ?case using Cons.IH p by (cases "k' = k") auto
qed

lemma dict_set_subset: "set (dict_set k v d) \<subseteq> insert (k, v) (set d)"
proof (induction d)
  case Nil
  show ?case by simp
next
  case (Cons p d)
  obtain k' v' where p: "p = (k', v')" by (cases p)
  show ?case using Cons.IH p by (cases "k' = k") auto
qed

lemma dict_set_distinct: "distinct (map fst d) \<Longrightarrow> distinct (map fst (dict_set k v d))"
proof (induction d)
  case Nil
  show ?case by simp
next
  case (Cons p d)
  obtain k' v' where p: "p = (k', v')" by (cases p)
  from Cons.prems p have fresh: "k' \<notin> fst ` set d" and dd: "distinct (map fst d)" by auto
  show ?case
  proof (cases "k' = k")
    case True
    with p fresh dd show ?thesis by simp
  next
    case False
    from fresh False have "k' \<notin> fst ` set (dict_set k v d)" by (simp add: dict_set_keys)
    with p False Cons.IH [OF dd] show ?thesis by simp
  qed
qed

lemma fold_dict_set_fresh:
  "distinct (map fst (acc @ items)) \<Longrightarrow> fold (\<lambda>(k, v) d. dict_set k v d) items acc = acc @ items"
proof (induction items arbitrary: acc)
  case Nil
  show ?case by simp
next
  case (Cons p items)
  obtain k v where p: "p = (k, v)" by (cases p)
  from Cons.prems p have fresh: "k \<notin> fst ` set acc" by auto
  from Cons.prems have "distinct (map fst ((acc @ [p]) @ items))" by simp
  then have "fold (\<lambda>(k, v) d. dict_set k v d) items (acc @ [p]) = (acc @ [p]) @ items"
    by (rule Cons.IH)
  with p fresh show ?case by (simp add: dict_set_fresh)
qed

lemma dict_of_items_wf: "wf_dict items \<Longrightarrow> dict_of_items items = items"
  using fold_dict_set_fresh [of "[]" items] by (simp add: dict_of_items_def wf_dict_def)

lemma fold_dict_set_inv:
  "distinct (map fst acc) \<Longrightarrow> set acc \<subseteq> A \<Longrightarrow> set items \<subseteq> A \<Longrightarrow>
   distinct (map fst (fold (\<lambda>(k, v) d. dict_set k v d) items acc)) \<and>
   set (fold (\<lambda>(k, v) d. dict_set k v d) items acc) \<subseteq> A"
proof (induction items arbitrary: acc)
  case Nil
  then show ?case by simp
next
  case (Cons p items)
  obtain k v where p: "p = (k, v)" by (cases p)
  have d: "distinct (map fst (dict_set k v acc))"
    using Cons.prems(1) by (rule dict_set_distinct)
  have s: "set (dict_set k v acc) \<subseteq> A"
    using dict_set_subset [of k v acc] Cons.prems(2,3) p by auto
  have i: "set items \<subseteq> A" using Cons.prems(3) by simp
  from Cons.IH [OF d s i] p show ?case by simp
qed

lemma dict_of_items_distinct: "wf_dict (dict_of_items items)"
  using fold_dict_set_inv [of "[]" "set items" items] by (simp add: dict_of_items_def wf_dict_def)

lemma dict_of_items_subset: "set (dict_of_items items) \<subseteq> set items"
  using fold_dict_set_inv [of "[]" "set items" items] by (simp add: dict_of_items_def)

lemma filter_repeated_words_wf:
  "wf_dict word_counts \<Longrightarrow>
   filter_repeated_words self word_counts =
     filter (\<lambda>(word, count). count \<ge> min_occurrences self) word_counts"
proof -
  assume "wf_dict word_counts"
  then have "wf_dict (filter (\<lambda>(word, count). count \<ge> min_occurrences self) word_counts)"
    by (simp add: wf_dict_def distinct_map_filter)
  then show ?thesis by (simp add: filter_repeated_words_def dict_of_items_wf)
qed

section \<open>The threshold filter\<close>

text \<open>
  Claim C4.  For every frequency table (a dictionary, each key once) and every threshold,
  \<open>filter_repeated_words\<close> returns a sub-mapping of its input: a word is mapped to a count
  in the result exactly when the input maps it to that count and the count is at least the
  threshold.  The default threshold of the constructor is 3.
\<close>

theorem filter_repeated_words_submap:
  "wf_dict word_counts \<Longrightarrow>
   (\<forall>word count. map_of (filter_repeated_words self word_counts) word = Some count \<longleftrightarrow>
      map_of word_counts word = Some count \<and> count \<ge> min_occurrences self) \<and>
   min_occurrences WordAnalyzer_default = 3"
proof -
  assume wf: "wf_dict word_counts"
  let ?P = "\<lambda>(word, count). count \<ge> min_occurrences self"
  have d: "distinct (map fst word_counts)" using wf by (simp add: wf_dict_def)
  then have d': "distinct (map fst (filter ?P word_counts))" by (simp add: distinct_map_filter)
  have "map_of (filter ?P word_counts) word = Some count \<longleftrightarrow>
      map_of word_counts word = Some count \<and> count \<ge> min_occurrences self" for word count
    using d d' by auto
  then show ?thesis
    by (simp add: filter_repeated_words_wf [OF wf] WordAnalyzer_default_def WordAnalyzer_init_def)
qed

theorem filter_repeated_words_submap_witness:
  "wf_dict [(''the'', 5::int), (''quick'', 2), (''brown'', 1), (''fox'', 3)] \<and>
   (\<forall>word count.
      map_of (filter_repeated_words WordAnalyzer_default
                [(''the'', 5), (''quick'', 2), (''brown'', 1), (''fox'', 3)]) word = Some count \<longleftrightarrow>
      map_of [(''the'', 5), (''quick'', 2), (''brown'', 1), (''fox'', 3)] word = Some count \<and>
      count \<ge> min_occurrences WordAnalyzer_default) \<and>
   min_occurrences WordAnalyzer_default = 3"
proof -
  have wf: "wf_dict [(''the'', 5::int), (''quick'', 2), (''brown'', 1), (''fox'', 3)]"
    by (simp add: wf_dict_def)
  show ?thesis
    using wf filter_repeated_words_submap [OF wf, of WordAnalyzer_default] by blast
qed

text \<open>
  Claim C7.  Filtering is idempotent: filtering with a threshold a table already filtered
  with the same threshold returns that table unchanged.
\<close>

theorem filter_repeated_words_idempotent:
  "filter_repeated_words self (filter_repeated_words self word_counts) =
   filter_repeated_words self word_counts"
proof -
  let ?P = "\<lambda>(word, count). count \<ge> min_occurrences self"
  let ?r = "filter_repeated_words self word_counts"
  have wf: "wf_dict ?r" by (simp add: filter_repeated_words_def dict_of_items_distinct)
  have "set ?r \<subseteq> set (filter ?P word_counts)"
    unfolding filter_repeated_words_def by (rule dict_of_items_subset)
  then have "\<forall>p \<in> set ?r. ?P p" by auto
  then have "filter ?P ?r = ?r" by (simp add: filter_id_conv)
  with filter_repeated_words_wf [OF wf, of self] show ?thesis by simp
qed

section \<open>Facts about counting\<close>

lemma dict_set_map_fst:
  "map fst (dict_set k v d) = (if k \<in> fst ` set d then map fst d else map fst d @ [k])"
proof (induction d)
  case Nil
  show ?case by simp
next
  case (Cons p d)
  obtain k' v' where p: "p = (k', v')" by (cases p)
  show ?case using Cons.IH p by (cases "k' = k") auto
qed

lemma dict_set_map_of: "map_of (dict_set k v d) = (map_of d)(k \<mapsto> v)"
proof (induction d)
  case Nil
  show ?case by simp
next
  case (Cons p d)
  obtain k' v' where p: "p = (k', v')" by (cases p)
  show ?case using Cons.IH p by (cases "k' = k") auto
qed

lemma dict_get_dict_set:
  "dict_get (dict_set k v d) w dflt = (if w = k then v else dict_get d w dflt)"
  by (simp add: dict_get_def dict_set_map_of)

lemma first_seen_set: "set (first_seen xs) = set xs"
  by (induction xs) auto

lemma first_seen_distinct: "distinct (first_seen xs)"
  by (induction xs) (auto simp: first_seen_set)

lemma Counter_fold_keys:
  "map fst (fold (\<lambda>elem d. dict_set elem (dict_get d elem 0 + 1) d) xs d) =
   map fst d @ filter (\<lambda>w. w \<notin> fst ` set d) (first_seen xs)"
proof (induction xs arbitrary: d)
  case Nil
  show ?case by simp
next
  case (Cons x xs)
  let ?d' = "dict_set x (dict_get d x 0 + 1) d"
  show ?case
  proof (cases "x \<in> fst ` set d")
    case True
    then have k: "map fst ?d' = map fst d" and s: "fst ` set ?d' = fst ` set d"
      by (simp_all add: dict_set_map_fst dict_set_keys insert_absorb)
    have "filter (\<lambda>w. w \<notin> fst ` set d) (filter (\<lambda>y. y \<noteq> x) (first_seen xs)) =
          filter (\<lambda>w. w \<notin> fst ` set d) (first_seen xs)"
      unfolding filter_filter using True by (intro filter_cong) auto
    with True show ?thesis using Cons.IH [of ?d'] by (simp add: k s)
  next
    case False
    then have k: "map fst ?d' = map fst d @ [x]" and s: "fst ` set ?d' = insert x (fst ` set d)"
      by (simp_all add: dict_set_map_fst dict_set_keys)
    have "filter (\<lambda>w. w \<notin> fst ` set d) (filter (\<lambda>y. y \<noteq> x) (first_seen xs)) =
          filter (\<lambda>w. w \<notin> insert x (fst ` set d)) (first_seen xs)"
      unfolding filter_filter by (intro filter_cong) auto
    with False show ?thesis using Cons.IH [of ?d'] by (simp add: k s)
  qed
qed

lemma Counter_fold_map_of:
  "map_of (fold (\<lambda>elem d. dict_set elem (dict_get d elem 0 + 1) d) xs d) w =
   (if map_of d w = None \<and> w \<notin> set xs then None
    else Some (dict_get d w 0 + int (count_list xs w)))"
proof (induction xs arbitrary: d)
  case Nil
  show ?case by (auto simp: dict_get_def)
next
  case (Cons x xs)
  let ?d' = "dict_set x (dict_get d x 0 + 1) d"
  have m: "map_of ?d' = (map_of d)(x \<mapsto> dict_get d x 0 + 1)" by (rule dict_set_map_of)
  show ?case using Cons.IH [of ?d'] by (simp add: m dict_get_dict_set)
qed

lemma Counter_keys: "map fst (Counter xs) = first_seen xs"
  using Counter_fold_keys [of xs "[]"] by (simp add: Counter_def)

lemma Counter_map_of:
  "map_of (Counter xs) w = (if w \<in> set xs then Some (int (count_list xs w)) else None)"
  using Counter_fold_map_of [of xs "[]" w] by (simp add: Counter_def dict_get_def)

lemma Counter_wf: "wf_dict (Counter xs)"
  by (simp add: wf_dict_def Counter_keys first_seen_distinct)

lemma Counter_items:
  "Counter xs = map (\<lambda>w. (w, int (count_list xs w))) (first_seen xs)"
proof (rule nth_equalityI)
  show len: "length (Counter xs) = length (map (\<lambda>w. (w, int (count_list xs w))) (first_seen xs))"
    using arg_cong [OF Counter_keys [of xs], of length] by simp
  fix i assume il: "i < length (Counter xs)"
  have d: "distinct (map fst (Counter xs))" using Counter_wf [of xs] by (simp add: wf_dict_def)
  have fi: "fst (Counter xs ! i) = first_seen xs ! i"
    using arg_cong [OF Counter_keys [of xs], of "\<lambda>l. l ! i"] il by simp
  have "Counter xs ! i \<in> set (Counter xs)" using il by simp
  then have "(fst (Counter xs ! i), snd (Counter xs ! i)) \<in> set (Counter xs)" by simp
  then have "map_of (Counter xs) (fst (Counter xs ! i)) = Some (snd (Counter xs ! i))"
    using d by simp
  then have "snd (Counter xs ! i) = int (count_list xs (first_seen xs ! i))"
    by (simp add: Counter_map_of fi split: if_splits)
  with fi have "Counter xs ! i = (first_seen xs ! i, int (count_list xs (first_seen xs ! i)))"
    by (simp add: prod_eq_iff)
  then show "Counter xs ! i = map (\<lambda>w. (w, int (count_list xs w))) (first_seen xs) ! i"
    using il len by simp
qed

lemma count_list_concat_map:
  "int (count_list (concat (map f hs)) w) = (\<Sum>h\<leftarrow>hs. int (count_list (f h) w))"
  by (induction hs) simp_all

section \<open>Facts about ranking\<close>

lemma sorted_reverse_mset: "mset (sorted_reverse key xs) = mset xs"
  by (simp add: sorted_reverse_def)

lemma sorted_reverse_set: "set (sorted_reverse key xs) = set xs"
  by (simp add: sorted_reverse_def)

lemma sorted_reverse_descending:
  "sorted_wrt (\<lambda>p q. key p \<ge> key q) (sorted_reverse key xs)"
proof -
  have "sorted (map key (sort_key key (rev xs)))" by (rule sorted_sort_key)
  then have "sorted_wrt (\<lambda>p q. key p \<le> key q) (sort_key key (rev xs))"
    by (simp add: sorted_map)
  then show ?thesis
    unfolding sorted_reverse_def by (simp add: sorted_wrt_rev)
qed


lemma sorted_reverse_wf: "wf_dict d \<Longrightarrow> wf_dict (sorted_reverse key d)"
proof -
  assume "wf_dict d"
  then have "distinct (map fst d)" by (simp add: wf_dict_def)
  moreover have "mset (map fst (sorted_reverse key d)) = mset (map fst d)"
    by (simp add: sorted_reverse_mset)
  ultimately have "distinct (map fst (sorted_reverse key d))"
    by (metis mset_eq_imp_distinct_iff)
  then show ?thesis by (simp add: wf_dict_def)
qed

lemma count_words_wf: "wf_dict (count_words headers)"
  by (simp add: count_words_def Counter_wf)

lemma filter_repeated_words_count_words:
  "filter_repeated_words self (count_words headers) =
   filter (\<lambda>(word, count). count \<ge> min_occurrences self) (count_words headers)"
  by (rule filter_repeated_words_wf [OF count_words_wf])

lemma filter_wf: "wf_dict d \<Longrightarrow> wf_dict (filter P d)"
  by (simp add: wf_dict_def distinct_map_filter)

lemma analyze_headers_sorted_filter:
  "analyze_headers self headers =
   sorted_reverse snd (filter (\<lambda>(word, count). count \<ge> min_occurrences self) (count_words headers))"
proof -
  let ?f = "filter (\<lambda>(word, count). count \<ge> min_occurrences self) (count_words headers)"
  have "wf_dict ?f" by (rule filter_wf [OF count_words_wf])
  then have "wf_dict (sorted_reverse snd ?f)" by (rule sorted_reverse_wf)
  then have "dict_of_items (sorted_reverse snd ?f) = sorted_reverse snd ?f"
    by (rule dict_of_items_wf)
  then show ?thesis
    by (simp add: analyze_headers_def filter_repeated_words_count_words)
qed

section \<open>The tokens of a header\<close>

lemma is_az_word: "is_az c \<Longrightarrow> is_word c"
  by (simp add: is_az_def is_word_def Let_def)

lemma takeWhile_sub_eq:
  "(\<And>x. P x \<Longrightarrow> Q x) \<Longrightarrow> list_all P (takeWhile Q xs) \<Longrightarrow> takeWhile P xs = takeWhile Q xs"
  by (induction xs) (auto split: if_splits)

lemma takeWhile_sub_lt:
  "(\<And>x. P x \<Longrightarrow> Q x) \<Longrightarrow> \<not> list_all P (takeWhile Q xs) \<Longrightarrow>
   length (takeWhile P xs) < length (takeWhile Q xs)"
  by (induction xs) (auto split: if_splits)

lemma az_run_nth:
  "j < length (takeWhile is_az rest) \<Longrightarrow> is_az (rest ! j) \<and> j < length rest"
proof -
  assume j: "j < length (takeWhile is_az rest)"
  then have "takeWhile is_az rest ! j \<in> set (takeWhile is_az rest)" by simp
  then have "is_az (takeWhile is_az rest ! j)" by (rule set_takeWhileD [THEN conjunct2])
  moreover have "takeWhile is_az rest ! j = rest ! j" using j by (rule takeWhile_nth)
  moreover have "length (takeWhile is_az rest) \<le> length rest" by (rule length_takeWhile_le)
  ultimately show ?thesis using j by simp
qed

lemma boundary_after_inside:
  "0 < j \<Longrightarrow> j < length (takeWhile is_az rest) \<Longrightarrow> \<not> boundary_after rest j"
proof -
  assume p: "0 < j" and j: "j < length (takeWhile is_az rest)"
  from j have a: "is_az (rest ! j)" and l: "j < length rest" using az_run_nth by blast+
  from p j have "j - 1 < length (takeWhile is_az rest)" by simp
  then have b: "is_az (rest ! (j - 1))" using az_run_nth by blast
  from l have "drop j rest \<noteq> []" and "hd (drop j rest) = rest ! j"
    by (simp_all add: hd_drop_conv_nth)
  with a b show ?thesis by (simp add: boundary_after_def word_boundary_def is_az_word)
qed

lemma backtrack_inside: "k < length (takeWhile is_az rest) \<Longrightarrow> backtrack rest k = None"
  by (induction k) (simp_all add: boundary_after_inside)

lemma backtrack_whole_run:
  assumes "0 < length (takeWhile is_az rest)"
  shows "backtrack rest (length (takeWhile is_az rest)) =
         (if length (takeWhile is_az rest) < length rest \<and>
             is_word (rest ! length (takeWhile is_az rest))
          then None else Some (length (takeWhile is_az rest)))"
proof -
  let ?n = "length (takeWhile is_az rest)"
  from assms obtain m where m: "?n = Suc m" by (cases ?n) auto
  have inner: "backtrack rest m = None" using m by (simp add: backtrack_inside)
  have "m < ?n" using m by simp
  then have last: "is_word (rest ! m)" using az_run_nth is_az_word by blast
  have "boundary_after rest (Suc m) =
        (\<not> (Suc m < length rest \<and> is_word (rest ! Suc m)))"
    using last by (auto simp: boundary_after_def word_boundary_def hd_drop_conv_nth)
  then show ?thesis using inner by (simp add: m)
qed

lemma findall_after_word: "findall True s = findall False (dropWhile is_word s)"
proof (induction s)
  case Nil
  have "match_here True [] = None" by (simp add: match_here_def word_boundary_def)
  moreover have "match_here False [] = None" by (simp add: match_here_def word_boundary_def)
  ultimately show ?case
    by (simp add: findall.simps [of True "[]"] findall.simps [of False "[]"])
next
  case (Cons c cs)
  show ?case
  proof (cases "is_word c")
    case True
    then have "match_here True (c # cs) = None" by (simp add: match_here_def word_boundary_def)
    then have "findall True (c # cs) = findall True cs"
      using True by (simp add: findall.simps [of True "c # cs"])
    with Cons.IH True show ?thesis by simp
  next
    case False
    then have naz: "\<not> is_az c" using is_az_word by blast
    have "match_here True (c # cs) = None" using naz by (simp add: match_here_def)
    then have l: "findall True (c # cs) = findall False cs"
      using False by (simp add: findall.simps [of True "c # cs"])
    have "match_here False (c # cs) = None"
      using False by (simp add: match_here_def word_boundary_def)
    then have r: "findall False (c # cs) = findall False cs"
      using False by (simp add: findall.simps [of False "c # cs"])
    show ?thesis using l r False by simp
  qed
qed

lemma findall_word_runs:
  "findall False s = filter (list_all is_az) (maximal_runs is_word s)"
proof (induction s rule: length_induct)
  case (1 s)
  show ?case
  proof (cases s)
    case Nil
    have "match_here False [] = None" by (simp add: match_here_def word_boundary_def)
    then show ?thesis using Nil by (simp add: findall.simps [of False "[]"])
  next
    case (Cons c cs)
    have IHcs: "findall False cs = filter (list_all is_az) (maximal_runs is_word cs)"
      using 1 Cons by simp
    have "length (dropWhile is_word cs) \<le> length cs" by (rule length_dropWhile_le)
    then have IHd: "findall False (dropWhile is_word cs) =
        filter (list_all is_az) (maximal_runs is_word (dropWhile is_word cs))"
      using 1 Cons by simp
    show ?thesis
    proof (cases "is_word c")
      case False
      then have "match_here False (c # cs) = None"
        by (simp add: match_here_def word_boundary_def)
      then have "findall False (c # cs) = findall False cs"
        using False by (simp add: findall.simps [of False "c # cs"])
      with IHcs False Cons show ?thesis by simp
    next
      case True
      let ?w = "takeWhile is_word s"
      let ?n = "length (takeWhile is_az s)"
      have wb: "word_boundary False s" using True Cons by (simp add: word_boundary_def)
      have runs: "maximal_runs is_word s = ?w # maximal_runs is_word (dropWhile is_word cs)"
        using True Cons by simp
      have dw: "dropWhile is_word s = dropWhile is_word cs" using True Cons by simp
      show ?thesis
      proof (cases "list_all is_az ?w")
        case az: True
        have eq: "takeWhile is_az s = ?w"
          using az by (intro takeWhile_sub_eq is_az_word)
        have "c \<in> set ?w" using True Cons by simp
        then have npos: "0 < ?n" using eq by (cases "takeWhile is_az s") auto
        have stop: "\<not> (?n < length s \<and> is_word (s ! ?n))"
          using nth_length_takeWhile [of is_word s] eq by auto
        have "match_here False s = Some ?n"
          using wb backtrack_whole_run [OF npos] stop by (simp add: match_here_def)
        then have f: "findall False s = take ?n s # findall (is_word (s ! (?n - 1))) (drop ?n s)"
          by (simp add: findall.simps [of False s])
        have "?n - 1 < ?n" using npos by simp
        then have lw: "is_word (s ! (?n - 1))" using az_run_nth is_az_word by blast
        have tk: "take ?n s = ?w" using takeWhile_eq_take [of is_az s] eq by simp
        have dr: "drop ?n s = dropWhile is_word s"
          using dropWhile_eq_drop [of is_word s] eq by simp
        have "findall False s = ?w # findall True (dropWhile is_word s)"
          using f lw tk dr by simp
        also have "findall True (dropWhile is_word s) = findall False (dropWhile is_word s)"
          by (simp add: findall_after_word)
        finally show ?thesis using IHd runs dw az by simp
      next
        case naz: False
        have lt: "?n < length ?w"
          using naz by (intro takeWhile_sub_lt is_az_word)
        then have "?w ! ?n \<in> set ?w" by simp
        then have "is_word (?w ! ?n)" by (rule set_takeWhileD [THEN conjunct2])
        moreover have "?w ! ?n = s ! ?n" using lt by (rule takeWhile_nth)
        moreover have "length ?w \<le> length s" by (rule length_takeWhile_le)
        ultimately have go: "?n < length s \<and> is_word (s ! ?n)" using lt by simp
        have "backtrack s ?n = None"
        proof (cases "?n = 0")
          case True
          then show ?thesis by simp
        next
          case False
          then have "0 < ?n" by simp
          from backtrack_whole_run [OF this] go show ?thesis by simp
        qed
        then have "match_here False (c # cs) = None" using Cons by (simp add: match_here_def)
        then have "findall False (c # cs) = findall True cs"
          using True by (simp add: findall.simps [of False "c # cs"])
        then have "findall False s = findall True cs" using Cons by simp
        also have "\<dots> = findall False (dropWhile is_word cs)" by (rule findall_after_word)
        finally show ?thesis using IHd runs naz by simp
      qed
    qed
  qed
qed

text \<open>
  Claim C2, as amended.  For every input string, the tokens of \<open>count_words\<close> are exactly
  the maximal runs of word characters (letters, digits, underscore) of the lowercased string
  that consist of the letters \<open>a-z\<close> only, in their order, keeping those longer than 2:
  a run of letters is a token only when no word character stands next to it on either side.
  Digits and punctuation are never part of a token.
\<close>

theorem header_words_word_runs: "header_words s = word_run_tokens s"
  by (simp add: header_words_def word_run_tokens_def findall_word_runs)

theorem header_words_word_runs_witness:
  "header_words ''The covid19 crisis, x_ray labs'' =
   word_run_tokens ''The covid19 crisis, x_ray labs''"
  by (rule header_words_word_runs)

text \<open>
  Claim C2 as stated fails: the letters of \<open>covid19\<close> are followed by a digit, which is a
  word character, so \<open>\b\<close> does not hold behind them and the pattern matches nowhere in the
  string; the maximal run of letters \<open>covid\<close> is not emitted.
\<close>

theorem header_words_covid19:
  "header_words ''covid19'' = [] \<and> alphabetic_run_tokens ''covid19'' = [''covid''] \<and>
   header_words ''covid19'' \<noteq> alphabetic_run_tokens ''covid19''"
  by code_simp

section \<open>The frequency table\<close>

lemma all_words_set:
  "set (all_words headers) = (\<Union>header\<in>set headers. set (header_words header))"
  by (simp add: all_words_def)

lemma count_words_items:
  "set (count_words headers) =
   (\<lambda>token. (token, \<Sum>header\<leftarrow>headers. int (count_list (header_words header) token))) `
     (\<Union>header\<in>set headers. set (header_words header))"
proof -
  have c: "int (count_list (all_words headers) token) =
      (\<Sum>header\<leftarrow>headers. int (count_list (header_words header) token))" for token
    unfolding all_words_def by (rule count_list_concat_map)
  have "set (count_words headers) =
      (\<lambda>token. (token, int (count_list (all_words headers) token))) ` set (all_words headers)"
    by (simp add: count_words_def Counter_items first_seen_set)
  then show ?thesis by (simp add: c all_words_set)
qed

text \<open>
  Claim C3.  For every list of headers, the table of \<open>count_words\<close> has each key once; a
  string is a key exactly when it is a token of one of the headers, and the table maps it
  to the number of its occurrences among the tokens of each header, summed over all
  headers, repeats within a header included.  No headers give the empty table.
\<close>

theorem count_words_occurrences:
  "count_words [] = [] \<and>
   wf_dict (count_words headers) \<and>
   map_of (count_words headers) token =
     (if \<exists>header\<in>set headers. token \<in> set (header_words header)
      then Some (\<Sum>header\<leftarrow>headers. int (count_list (header_words header) token))
      else None)"
proof -
  have e: "count_words [] = []" by (simp add: count_words_def all_words_def Counter_def)
  have c: "int (count_list (all_words headers) token) =
      (\<Sum>header\<leftarrow>headers. int (count_list (header_words header) token))"
    unfolding all_words_def by (rule count_list_concat_map)
  have k: "token \<in> set (all_words headers) \<longleftrightarrow>
      (\<exists>header\<in>set headers. token \<in> set (header_words header))"
    by (simp add: all_words_set)
  have "map_of (count_words headers) token =
      (if token \<in> set (all_words headers)
       then Some (int (count_list (all_words headers) token)) else None)"
    by (simp add: count_words_def Counter_map_of)
  then have m: "map_of (count_words headers) token =
     (if \<exists>header\<in>set headers. token \<in> set (header_words header)
      then Some (\<Sum>header\<leftarrow>headers. int (count_list (header_words header) token))
      else None)"
    by (simp only: k c)
  show ?thesis by (intro conjI e count_words_wf m)
qed

theorem count_words_occurrences_witness:
  "count_words [] = [] \<and>
   wf_dict (count_words [''the cat and the dog'', ''The Cat'']) \<and>
   map_of (count_words [''the cat and the dog'', ''The Cat'']) ''the'' = Some 3 \<and>
   map_of (count_words [''the cat and the dog'', ''The Cat'']) ''and'' = Some 1 \<and>
   map_of (count_words [''the cat and the dog'', ''The Cat'']) ''bird'' = None"
proof -
  have h1: "header_words ''the cat and the dog'' = [''the'', ''cat'', ''and'', ''the'', ''dog'']"
    by code_simp
  have h2: "header_words ''The Cat'' = [''the'', ''cat'']" by code_simp
  note t = count_words_occurrences [where headers = "[''the cat and the dog'', ''The Cat'']"]
  have a: "map_of (count_words [''the cat and the dog'', ''The Cat'']) ''the'' = Some 3"
    using t [of "''the''"] by (simp add: h1 h2)
  have b: "map_of (count_words [''the cat and the dog'', ''The Cat'']) ''and'' = Some 1"
    using t [of "''and''"] by (simp add: h1 h2)
  have c: "map_of (count_words [''the cat and the dog'', ''The Cat'']) ''bird'' = None"
    using t [of "''bird''"] by (simp add: h1 h2)
  from t [of "''the''"] a b c show ?thesis by simp
qed

section \<open>The analysis\<close>

text \<open>
  Claim C5.  For every list of headers and every threshold, \<open>analyze_headers\<close> is the
  composition of counting, filtering and sorting by count: its result is the sorted list of
  the filtered table, a rearrangement of that table, and its counts are in descending
  order.
\<close>

theorem analyze_headers_composition:
  "analyze_headers self headers =
     sorted_reverse snd (filter_repeated_words self (count_words headers)) \<and>
   mset (analyze_headers self headers) = mset (filter_repeated_words self (count_words headers)) \<and>
   count_descending (analyze_headers self headers)"
  by (simp add: analyze_headers_sorted_filter filter_repeated_words_count_words
      sorted_reverse_mset count_descending_def sorted_reverse_descending)

theorem analyze_headers_composition_witness:
  "analyze_headers WordAnalyzer_default [''the cat the dog the end'', ''a cat a cat''] =
     sorted_reverse snd (filter_repeated_words WordAnalyzer_default
       (count_words [''the cat the dog the end'', ''a cat a cat''])) \<and>
   mset (analyze_headers WordAnalyzer_default [''the cat the dog the end'', ''a cat a cat'']) =
     mset (filter_repeated_words WordAnalyzer_default
       (count_words [''the cat the dog the end'', ''a cat a cat''])) \<and>
   count_descending
     (analyze_headers WordAnalyzer_default [''the cat the dog the end'', ''a cat a cat''])"
  by (rule analyze_headers_composition)

text \<open>
  Claim C6.  For every list of headers, \<open>analyze_headers\<close> with threshold 1 returns every
  token that occurs in a header, each with the number of its occurrences in all headers,
  and nothing else; and with a threshold above the number of occurrences of every token of
  the headers it returns the empty result.
\<close>

theorem analyze_headers_threshold_bounds:
  "set (analyze_headers (WordAnalyzer_init 1) headers) =
     (\<lambda>token. (token, \<Sum>header\<leftarrow>headers. int (count_list (header_words header) token))) `
       (\<Union>header\<in>set headers. set (header_words header)) \<and>
   fst ` set (analyze_headers (WordAnalyzer_init 1) headers) =
     (\<Union>header\<in>set headers. set (header_words header)) \<and>
   ((\<forall>header\<in>set headers. \<forall>token\<in>set (header_words header).
       (\<Sum>header\<leftarrow>headers. int (count_list (header_words header) token)) < t) \<longrightarrow>
      analyze_headers (WordAnalyzer_init t) headers = [])"
proof -
  let ?n = "\<lambda>token. \<Sum>header\<leftarrow>headers. int (count_list (header_words header) token)"
  let ?T = "\<Union>header\<in>set headers. set (header_words header)"
  have items: "set (count_words headers) = (\<lambda>token. (token, ?n token)) ` ?T"
    by (rule count_words_items)
  have n: "?n token = int (count_list (all_words headers) token)" for token
    unfolding all_words_def by (rule count_list_concat_map [symmetric])
  have pos: "1 \<le> ?n token" if "token \<in> ?T" for token
  proof -
    from that have "token \<in> set (all_words headers)" by (simp add: all_words_set)
    then have "0 < count_list (all_words headers) token"
      using count_list_0_iff [of "all_words headers" token] by simp
    then show ?thesis by (simp add: n)
  qed
  have "\<forall>p \<in> set (count_words headers). (\<lambda>(word, count). count \<ge> 1) p"
    unfolding items using pos by auto
  then have "filter (\<lambda>(word, count). count \<ge> 1) (count_words headers) = count_words headers"
    by (simp add: filter_id_conv)
  then have "set (analyze_headers (WordAnalyzer_init 1) headers) = set (count_words headers)"
    by (simp add: analyze_headers_sorted_filter WordAnalyzer_init_def sorted_reverse_set)
  then have a: "set (analyze_headers (WordAnalyzer_init 1) headers) =
      (\<lambda>token. (token, ?n token)) ` ?T"
    by (simp only: items)
  have b: "fst ` set (analyze_headers (WordAnalyzer_init 1) headers) = ?T"
    unfolding a by (simp add: image_image)
  have c: "analyze_headers (WordAnalyzer_init t) headers = []"
    if h: "\<forall>header\<in>set headers. \<forall>token\<in>set (header_words header). ?n token < t"
  proof -
    have lt: "?n token < t" if "token \<in> ?T" for token using h that by blast
    have "\<forall>p \<in> set (count_words headers). \<not> (\<lambda>(word, count). count \<ge> t) p"
    proof
      fix p assume "p \<in> set (count_words headers)"
      then obtain token where "token \<in> ?T" and p: "p = (token, ?n token)"
        unfolding items by blast
      then have "?n token < t" using lt by blast
      then show "\<not> (\<lambda>(word, count). count \<ge> t) p" by (simp add: p)
    qed
    then have "filter (\<lambda>(word, count). count \<ge> t) (count_words headers) = []"
      by (simp add: filter_empty_conv)
    then show ?thesis
      by (simp add: analyze_headers_sorted_filter WordAnalyzer_init_def sorted_reverse_def)
  qed
  from a b c show ?thesis by blast
qed

theorem analyze_headers_threshold_bounds_witness:
  "list_all (\<lambda>token. (\<Sum>header\<leftarrow>[''the cat the'']. int (count_list (header_words header) token)) < 3)
     (header_words ''the cat the'') \<and>
   analyze_headers (WordAnalyzer_init 3) [''the cat the''] = [] \<and>
   fst ` set (analyze_headers (WordAnalyzer_init 1) [''the cat the'']) = {''the'', ''cat''} \<and>
   set (analyze_headers (WordAnalyzer_init 1) [''the cat the'']) = {(''the'', 2), (''cat'', 1)}"
proof -
  have hw: "header_words ''the cat the'' = [''the'', ''cat'', ''the'']" by code_simp
  have la: "list_all (\<lambda>token. (\<Sum>header\<leftarrow>[''the cat the''].
      int (count_list (header_words header) token)) < 3) (header_words ''the cat the'')"
    by (simp add: hw)
  then have h: "\<forall>header\<in>set [''the cat the'']. \<forall>token\<in>set (header_words header).
      (\<Sum>header\<leftarrow>[''the cat the'']. int (count_list (header_words header) token)) < 3"
    by (simp add: list_all_iff)
  note t = analyze_headers_threshold_bounds [where headers = "[''the cat the'']" and t = 3]
  from t h have e: "analyze_headers (WordAnalyzer_init 3) [''the cat the''] = []" by blast
  from t have "fst ` set (analyze_headers (WordAnalyzer_init 1) [''the cat the'']) =
      (\<Union>header\<in>set [''the cat the'']. set (header_words header))" by blast
  then have k: "fst ` set (analyze_headers (WordAnalyzer_init 1) [''the cat the'']) =
      {''the'', ''cat''}"
    by (auto simp: hw)
  from t have "set (analyze_headers (WordAnalyzer_init 1) [''the cat the'']) =
     (\<lambda>token. (token, \<Sum>header\<leftarrow>[''the cat the'']. int (count_list (header_words header) token))) `
       (\<Union>header\<in>set [''the cat the'']. set (header_words header))" by blast
  then have i: "set (analyze_headers (WordAnalyzer_init 1) [''the cat the'']) =
      {(''the'', 2), (''cat'', 1)}"
    by (auto simp: hw)
  show ?thesis by (intro conjI la e k i)
qed



section \<open>Code points and Latin-1 strings\<close>

text \<open>
  The scan with the classes as parameters is the scan of the pattern above when the
  classes are those of Latin-1, and the tables on code points extend the tables of
  Latin-1.  So on the code points of a Latin-1 string the analysis on code points gives
  the result of \<open>analyze_headers\<close>, token by token.
\<close>

lemma boundary_after_with_latin1: "boundary_after_with is_word rest k = boundary_after rest k"
  by (simp add: boundary_after_with_def boundary_after_def word_boundary_with_def
      word_boundary_def)

lemma backtrack_with_latin1: "backtrack_with is_word rest k = backtrack rest k"
  by (induction k) (simp_all add: boundary_after_with_latin1)

lemma match_here_with_latin1: "match_here_with is_az is_word pw rest = match_here pw rest"
  unfolding match_here_with_def match_here_def word_boundary_with_def word_boundary_def
  by (simp only: backtrack_with_latin1)

lemma backtrack_with_bounds: "backtrack_with w rest n = Some k \<Longrightarrow> 0 < k \<and> k \<le> n"
  by (induction n) (auto split: if_splits)

lemma match_here_with_bounds:
  assumes "match_here_with az w pw rest = Some k"
  shows "0 < k \<and> k \<le> length rest"
proof -
  from assms have "backtrack_with w rest (length (takeWhile az rest)) = Some k"
    by (simp add: match_here_with_def split: if_splits)
  then have "0 < k \<and> k \<le> length (takeWhile az rest)" by (rule backtrack_with_bounds)
  moreover have "length (takeWhile az rest) \<le> length rest" by (rule length_takeWhile_le)
  ultimately show ?thesis by simp
qed

lemma findall_with_latin1: "findall_with is_az is_word pw rest = findall pw rest"
proof (induction rest arbitrary: pw rule: length_induct)
  case (1 rest)
  show ?case
  proof (cases "match_here pw rest")
    case (Some k)
    then have "match_here_with is_az is_word pw rest = Some k"
      by (simp add: match_here_with_latin1)
    then have "0 < k \<and> k \<le> length rest" by (rule match_here_with_bounds)
    then have "length (drop k rest) < length rest" by auto
    then have "findall_with is_az is_word (is_word (rest ! (k - 1))) (drop k rest) =
        findall (is_word (rest ! (k - 1))) (drop k rest)"
      using 1 by blast
    then show ?thesis
      using Some
      by (simp add: findall.simps [of pw rest] findall_with.simps [of is_az is_word pw rest]
          match_here_with_latin1)
  next
    case None
    show ?thesis
    proof (cases rest)
      case Nil
      with None show ?thesis
        by (simp add: findall.simps [of pw "[]"] findall_with.simps [of is_az is_word pw "[]"]
            match_here_with_latin1)
    next
      case (Cons c cs)
      then have "findall_with is_az is_word (is_word c) cs = findall (is_word c) cs"
        using 1 by simp
      with None Cons show ?thesis
        by (simp add: findall.simps [of pw "c # cs"]
            findall_with.simps [of is_az is_word pw "c # cs"] match_here_with_latin1)
    qed
  qed
qed

lemma code_less: "code c < 256"
  by (simp add: code_def)

lemma uis_az_code: "uis_az (code c) = is_az c"
  by (simp add: uis_az_def is_az_def)

lemma uis_word_code: "uis_word (code c) = is_word c"
  using code_less [of c] by (auto simp: uis_word_def is_word_def Let_def)

lemma code_char_of: "n < 256 \<Longrightarrow> code (char_of n) = n"
  by (simp add: code_def)

lemma ulower_char_code: "ulower_char (code c) = [code (lower_char c)]"
proof -
  have l: "code c < 256" by (rule code_less)
  show ?thesis
  proof (cases "(65 \<le> code c \<and> code c \<le> 90) \<or> (192 \<le> code c \<and> code c \<le> 214) \<or>
      (216 \<le> code c \<and> code c \<le> 222)")
    case True
    then have "code c + 32 < 256" by auto
    then have "code (char_of (code c + 32)) = code c + 32" by (rule code_char_of)
    with True show ?thesis by (simp add: ulower_char_def lower_char_def Let_def)
  next
    case False
    then have a: "lower_char c = c" by (auto simp: lower_char_def Let_def)
    from l have b: "code c \<noteq> 304" "code c \<noteq> 376" "\<not> 256 \<le> code c" "\<not> 306 \<le> code c"
      "\<not> 330 \<le> code c" "\<not> 313 \<le> code c" "\<not> 377 \<le> code c" by simp_all
    show ?thesis unfolding a ulower_char_def using False b by simp
  qed
qed

lemma ulower_codes: "ulower (codes s) = codes (lower s)"
  by (induction s) (simp_all add: ulower_def codes_def lower_def ulower_char_code)

lemma word_boundary_with_map:
  "word_boundary_with w pw (map f rest) = word_boundary_with (\<lambda>c. w (f c)) pw rest"
  by (cases rest) (simp_all add: word_boundary_with_def)

lemma backtrack_with_map:
  "k \<le> length rest \<Longrightarrow>
   backtrack_with w (map f rest) k = backtrack_with (\<lambda>c. w (f c)) rest k"
proof (induction k)
  case 0
  show ?case by simp
next
  case (Suc k)
  then have l: "k < length rest" by simp
  have d: "drop (Suc k) (map f rest) = map f (drop (Suc k) rest)" by (simp add: drop_map)
  have n: "map f rest ! k = f (rest ! k)" using l by (rule nth_map)
  have "boundary_after_with w (map f rest) (Suc k) =
      boundary_after_with (\<lambda>c. w (f c)) rest (Suc k)"
    unfolding boundary_after_with_def d by (simp add: n word_boundary_with_map)
  with Suc show ?case by simp
qed

lemma match_here_with_map:
  "match_here_with az w pw (map f rest) =
   match_here_with (\<lambda>c. az (f c)) (\<lambda>c. w (f c)) pw rest"
proof -
  have t: "length (takeWhile az (map f rest)) = length (takeWhile (\<lambda>c. az (f c)) rest)"
    by (simp add: takeWhile_map comp_def)
  have "length (takeWhile (\<lambda>c. az (f c)) rest) \<le> length rest" by (rule length_takeWhile_le)
  then show ?thesis
    by (simp add: match_here_with_def word_boundary_with_map t backtrack_with_map)
qed

lemma findall_with_map:
  "findall_with az w pw (map f rest) =
   map (map f) (findall_with (\<lambda>c. az (f c)) (\<lambda>c. w (f c)) pw rest)"
proof (induction rest arbitrary: pw rule: length_induct)
  case (1 rest)
  let ?az = "\<lambda>c. az (f c)" and ?w = "\<lambda>c. w (f c)"
  show ?case
  proof (cases "match_here_with ?az ?w pw rest")
    case (Some k)
    then have b: "0 < k \<and> k \<le> length rest" by (rule match_here_with_bounds)
    then have "length (drop k rest) < length rest" by auto
    then have ih: "findall_with az w (w (f (rest ! (k - 1)))) (map f (drop k rest)) =
        map (map f) (findall_with ?az ?w (w (f (rest ! (k - 1)))) (drop k rest))"
      using 1 by blast
    from b have "k - 1 < length rest" by arith
    then have n: "map f rest ! (k - 1) = f (rest ! (k - 1))" by (rule nth_map)
    show ?thesis
      using Some ih n
      by (simp add: findall_with.simps [of az w pw "map f rest"]
          findall_with.simps [of ?az ?w pw rest] match_here_with_map take_map drop_map)
  next
    case None
    show ?thesis
    proof (cases rest)
      case Nil
      with None show ?thesis
        using match_here_with_map [of az w pw f "[]"]
        by (simp add: findall_with.simps [of az w pw "[]"] findall_with.simps [of ?az ?w pw "[]"])
    next
      case (Cons c cs)
      then have ih: "findall_with az w (w (f c)) (map f cs) =
          map (map f) (findall_with ?az ?w (w (f c)) cs)"
        using 1 by simp
      from None Cons have m: "match_here_with az w pw (f c # map f cs) = None"
        using match_here_with_map [of az w pw f "c # cs"] by simp
      from None Cons have m': "match_here_with ?az ?w pw (c # cs) = None" by simp
      show ?thesis
        using Cons ih m m'
        by (simp add: findall_with.simps [of az w pw "f c # map f cs"]
            findall_with.simps [of ?az ?w pw "c # cs"])
    qed
  qed
qed

lemma findall_with_codes:
  "findall_with uis_az uis_word pw (codes s) = map codes (findall pw s)"
proof -
  have "findall_with uis_az uis_word pw (map code s) =
      map (map code) (findall_with (\<lambda>c. uis_az (code c)) (\<lambda>c. uis_word (code c)) pw s)"
    by (rule findall_with_map)
  then show ?thesis
    by (simp add: uis_az_code uis_word_code findall_with_latin1 codes_def [abs_def])
qed

lemma header_words_u_codes: "header_words_u (codes s) = map codes (header_words s)"
proof -
  have l: "length (codes w) = length w" for w by (simp add: codes_def)
  have "header_words_u (codes s) =
      filter (\<lambda>word. length word > 2) (map codes (findall False (lower s)))"
    by (simp only: header_words_u_def ulower_codes findall_with_codes)
  also have "\<dots> = map codes (filter (\<lambda>word. length word > 2) (findall False (lower s)))"
    by (simp add: filter_map comp_def l)
  finally show ?thesis by (simp only: header_words_def)
qed

lemma codes_inj: "inj codes"
proof -
  have "inj code" by (rule injI) (simp add: code_def)
  then have "inj (map code)" by simp
  then show ?thesis by (simp add: codes_def [abs_def])
qed

lemma first_seen_map: "inj f \<Longrightarrow> first_seen (map f xs) = map f (first_seen xs)"
proof (induction xs)
  case Nil
  show ?case by simp
next
  case (Cons x xs)
  have "filter (\<lambda>y. y \<noteq> f x) (map f (first_seen xs)) =
      map f (filter (\<lambda>y. y \<noteq> x) (first_seen xs))"
    using Cons.prems by (simp add: filter_map comp_def inj_eq)
  with Cons show ?case by simp
qed

lemma count_list_map: "inj f \<Longrightarrow> count_list (map f xs) (f w) = count_list xs w"
  by (induction xs) (simp_all add: inj_eq)

lemma Counter_map:
  "inj f \<Longrightarrow> Counter (map f xs) = map (\<lambda>(w, n). (f w, n)) (Counter xs)"
  by (simp add: Counter_items first_seen_map count_list_map comp_def)

lemma insort_key_snd_map:
  "insort_key snd (f w, n) (map (\<lambda>(w, n). (f w, n)) xs) =
   map (\<lambda>(w, n). (f w, n)) (insort_key snd (w, n) xs)"
  by (induction xs) auto

lemma sort_key_snd_map:
  "sort_key snd (map (\<lambda>(w, n). (f w, n)) xs) = map (\<lambda>(w, n). (f w, n)) (sort_key snd xs)"
proof (induction xs)
  case Nil
  show ?case by simp
next
  case (Cons p xs)
  obtain w n where p: "p = (w, n)" by (cases p)
  show ?case using Cons.IH by (simp add: p insort_key_snd_map)
qed

lemma sorted_reverse_snd_map:
  "sorted_reverse snd (map (\<lambda>(w, n). (f w, n)) xs) =
   map (\<lambda>(w, n). (f w, n)) (sorted_reverse snd xs)"
proof -
  have "rev (map (\<lambda>(w, n). (f w, n)) xs) = map (\<lambda>(w, n). (f w, n)) (rev xs)"
    by (rule rev_map)
  then show ?thesis
    unfolding sorted_reverse_def by (simp only: sort_key_snd_map rev_map)
qed

lemma count_words_u_wf: "wf_dict (count_words_u headers)"
  by (simp add: count_words_u_def Counter_wf)

lemma analyze_headers_u_sorted_filter:
  "analyze_headers_u self headers =
   sorted_reverse snd
     (filter (\<lambda>(word, count). count \<ge> min_occurrences self) (count_words_u headers))"
proof -
  let ?f = "filter (\<lambda>(word, count). count \<ge> min_occurrences self) (count_words_u headers)"
  have wf: "wf_dict ?f" by (rule filter_wf [OF count_words_u_wf])
  then have r: "filter_repeated_words_u self (count_words_u headers) = ?f"
    by (simp add: filter_repeated_words_u_def dict_of_items_wf)
  from wf have "wf_dict (sorted_reverse snd ?f)" by (rule sorted_reverse_wf)
  then have "dict_of_items (sorted_reverse snd ?f) = sorted_reverse snd ?f"
    by (rule dict_of_items_wf)
  then show ?thesis by (simp add: analyze_headers_u_def r)
qed

lemma count_words_u_codes:
  "count_words_u (map codes headers) = map (\<lambda>(w, n). (codes w, n)) (count_words headers)"
proof -
  have "all_words_u (map codes headers) = map codes (all_words headers)"
    by (simp add: all_words_u_def all_words_def map_concat comp_def header_words_u_codes)
  then show ?thesis
    by (simp add: count_words_u_def count_words_def Counter_map [OF codes_inj])
qed

lemma analyze_headers_u_codes:
  "analyze_headers_u self (map codes headers) =
   map (\<lambda>(w, n). (codes w, n)) (analyze_headers self headers)"
proof -
  let ?P = "\<lambda>(word, count). count \<ge> min_occurrences self"
  have "filter ?P (map (\<lambda>(w, n). (codes w, n)) (count_words headers)) =
      map (\<lambda>(w, n). (codes w, n)) (filter ?P (count_words headers))"
    by (induction "count_words headers") (auto simp: filter_map comp_def split_def)
  then show ?thesis
    by (simp add: analyze_headers_u_sorted_filter analyze_headers_sorted_filter
        count_words_u_codes sorted_reverse_snd_map)
qed

section \<open>Letter case\<close>






section \<open>The threshold is not validated\<close>

text \<open>
  Claim C1, as amended.  For every integer threshold, positive or not, invoking the
  threshold filter raises no error and returns the filtered table: the constructor stores
  the threshold as given and the filter only compares with it.  With a threshold \<open>t \<le> 0\<close>
  a frequency table, whose counts are all at least 1, is returned unchanged.
\<close>

theorem filter_outcome_never_raises:
  "filter_outcome (WordAnalyzer_init t) word_counts =
     Inr (filter_repeated_words (WordAnalyzer_init t) word_counts) \<and>
   (t \<le> 0 \<and> wf_dict word_counts \<and> (\<forall>(word, count) \<in> set word_counts. 1 \<le> count) \<longrightarrow>
      filter_outcome (WordAnalyzer_init t) word_counts = Inr word_counts)"
proof -
  have "filter_repeated_words (WordAnalyzer_init t) word_counts = word_counts"
    if t: "t \<le> 0" and wf: "wf_dict word_counts"
      and pos: "\<forall>(word, count) \<in> set word_counts. 1 \<le> count"
  proof -
    from t pos have "\<forall>p \<in> set word_counts. (\<lambda>(word, count). count \<ge> t) p" by fastforce
    then have "filter (\<lambda>(word, count). count \<ge> t) word_counts = word_counts"
      by (simp add: filter_id_conv)
    then show ?thesis
      by (simp add: filter_repeated_words_wf [OF wf] WordAnalyzer_init_def)
  qed
  then show ?thesis by (simp add: filter_outcome_def)
qed

theorem filter_outcome_never_raises_witness:
  "(0::int) \<le> 0 \<and> wf_dict [(''the'', 3::int), (''cat'', 1)] \<and>
   list_all (\<lambda>(word, count). 1 \<le> count) [(''the'', 3::int), (''cat'', 1)] \<and>
   filter_outcome (WordAnalyzer_init 0) [(''the'', 3), (''cat'', 1)] =
     Inr [(''the'', 3), (''cat'', 1)]"
proof -
  have wf: "wf_dict [(''the'', 3::int), (''cat'', 1)]" by (simp add: wf_dict_def)
  have pos: "\<forall>(word, count) \<in> set [(''the'', 3::int), (''cat'', 1)]. 1 \<le> count" by simp
  have h: "(0::int) \<le> 0 \<and> wf_dict [(''the'', 3::int), (''cat'', 1)] \<and>
     (\<forall>(word, count) \<in> set [(''the'', 3::int), (''cat'', 1)]. 1 \<le> count)"
    using wf pos by simp
  have r: "filter_outcome (WordAnalyzer_init 0) [(''the'', 3), (''cat'', 1)] =
      Inr [(''the'', 3), (''cat'', 1)]"
    using h filter_outcome_never_raises [of 0 "[(''the'', 3), (''cat'', 1)]"] by blast
  have la: "list_all (\<lambda>(word, count). 1 \<le> count) [(''the'', 3::int), (''cat'', 1)]" by simp
  show ?thesis using wf la r by simp
qed

text \<open>
  Claim C1 as stated fails: with threshold 0 the filter returns normally, with every entry
  of the table, and raises no \<open>InvalidConfiguration\<close>.
\<close>

theorem filter_outcome_zero_threshold:
  "filter_outcome (WordAnalyzer_init 0) [(''the'', 3)] = Inr [(''the'', 3)] \<and>
   filter_outcome (WordAnalyzer_init 0) [(''the'', 3)] \<noteq> Inl InvalidConfiguration"
  by (simp add: filter_outcome_def filter_repeated_words_def WordAnalyzer_init_def dict_of_items_def)

section \<open>Translating the titles\<close>

lemma translate_titles_loop_acc:
  "translate_titles_loop self titles acc n =
   (acc @ fst (translate_titles_loop self titles [] n),
    snd (translate_titles_loop self titles [] n))"
proof (induction titles arbitrary: acc n)
  case Nil
  show ?case by simp
next
  case (Cons title rest)
  obtain translated n' where t: "translate_text self title 3 n = (translated, n')"
    by (cases "translate_text self title 3 n")
  show ?case
    using Cons.IH [of "acc @ [translated]" n'] Cons.IH [of "[translated]" n'] t by simp
qed

lemma translate_titles_Cons:
  "translate_titles self (title # rest) n =
   (fst (translate_text self title 3 n) #
      fst (translate_titles self rest (snd (translate_text self title 3 n))),
    snd (translate_titles self rest (snd (translate_text self title 3 n))))"
proof -
  obtain translated n' where t: "translate_text self title 3 n = (translated, n')"
    by (cases "translate_text self title 3 n")
  show ?thesis
    using translate_titles_loop_acc [of self rest "[translated]" n'] t
    by (simp add: translate_titles_def)
qed

lemma translate_titles_Nil: "translate_titles self [] n = ([], n)"
  by (simp add: translate_titles_def)

lemma translate_titles_length: "length (fst (translate_titles self titles n)) = length titles"
  by (induction titles arbitrary: n) (simp_all add: translate_titles_Nil translate_titles_Cons)

lemma translate_titles_nth:
  "i < length titles \<Longrightarrow>
   fst (translate_titles self titles n) ! i =
   fst (translate_text self (titles ! i) 3 (requests_before self titles n i))"
proof (induction titles arbitrary: n i)
  case Nil
  then show ?case by simp
next
  case (Cons title rest)
  show ?case
  proof (cases i)
    case 0
    then show ?thesis
      by (simp add: translate_titles_Cons requests_before_def translate_titles_Nil)
  next
    case (Suc j)
    with Cons.prems have j: "j < length rest" by simp
    show ?thesis
      using Cons.IH [OF j, of "snd (translate_text self title 3 n)"] Suc
      by (simp add: translate_titles_Cons requests_before_def)
  qed
qed

lemma translate_text_all_fail:
  "\<forall>j<3. translator self (n + j) text (source_lang self) (target_lang self) = None \<Longrightarrow>
   fst (translate_text self text 3 n) = text"
proof -
  assume f: "\<forall>j<3. translator self (n + j) text (source_lang self) (target_lang self) = None"
  have r: "[0..<3] = [0, Suc 0, Suc (Suc 0)]" by (simp add: upt_rec)
  from f have f0: "translator self n text (source_lang self) (target_lang self) = None"
    and f1: "translator self (Suc n) text (source_lang self) (target_lang self) = None"
    and f2: "translator self (Suc (Suc n)) text (source_lang self) (target_lang self) = None"
    using f [rule_format, of 0] f [rule_format, of 1] f [rule_format, of 2] by simp_all
  show ?thesis by (simp add: translate_text_def r f0 f1 f2)
qed

text \<open>
  Claim C9.  For every list of titles, \<open>translate_titles\<close> returns a list of the same
  length whose item at each index is the result of \<open>translate_text\<close> on the title at that
  index, so that order is kept and no item is dropped; and when the three requests made for
  a title all fail, the item is the original title, the later titles being processed all
  the same.
\<close>

theorem translate_titles_one_per_title:
  "length (fst (translate_titles self titles n)) = length titles \<and>
   (\<forall>i<length titles.
      fst (translate_titles self titles n) ! i =
        fst (translate_text self (titles ! i) 3 (requests_before self titles n i)) \<and>
      ((\<forall>j<3. translator self (requests_before self titles n i + j) (titles ! i)
                 (source_lang self) (target_lang self) = None) \<longrightarrow>
       fst (translate_titles self titles n) ! i = titles ! i))"
  by (simp add: translate_titles_length translate_titles_nth translate_text_all_fail)

theorem translate_titles_one_per_title_witness:
  "(0::nat) < length [''hola'', ''mundo''] \<and>
   list_all (\<lambda>j. translator failing_thrice
                (requests_before failing_thrice [''hola'', ''mundo''] 0 0 + j)
                ([''hola'', ''mundo''] ! 0)
                (source_lang failing_thrice) (target_lang failing_thrice) = None)
     [0, 1, 2] \<and>
   fst (translate_titles failing_thrice [''hola'', ''mundo''] 0) ! 0 = [''hola'', ''mundo''] ! 0 \<and>
   length (fst (translate_titles failing_thrice [''hola'', ''mundo''] 0)) =
     length [''hola'', ''mundo''] \<and>
   fst (translate_titles failing_thrice [''hola'', ''mundo''] 0) = [''hola'', ''world'']"
proof -
  have l: "(0::nat) < length [''hola'', ''mundo'']" by simp
  have rb: "requests_before failing_thrice [''hola'', ''mundo''] 0 0 = 0"
    by (simp add: requests_before_def translate_titles_def)
  have h: "\<forall>j<3. translator failing_thrice
             (requests_before failing_thrice [''hola'', ''mundo''] 0 0 + j)
             ([''hola'', ''mundo''] ! 0)
             (source_lang failing_thrice) (target_lang failing_thrice) = None"
    unfolding rb by (simp add: failing_thrice_def)
  have la: "list_all (\<lambda>j. translator failing_thrice
                (requests_before failing_thrice [''hola'', ''mundo''] 0 0 + j)
                ([''hola'', ''mundo''] ! 0)
                (source_lang failing_thrice) (target_lang failing_thrice) = None)
     [0, 1, 2]"
    unfolding rb by (simp add: failing_thrice_def)
  note t = translate_titles_one_per_title [of failing_thrice "[''hola'', ''mundo'']" 0]
  from t have len: "length (fst (translate_titles failing_thrice [''hola'', ''mundo''] 0)) =
      length [''hola'', ''mundo'']" by (rule conjunct1)
  from t l h have q: "fst (translate_titles failing_thrice [''hola'', ''mundo''] 0) ! 0 =
      [''hola'', ''mundo''] ! 0" by blast
  have v: "fst (translate_titles failing_thrice [''hola'', ''mundo''] 0) = [''hola'', ''world'']"
    by code_simp
  show ?thesis by (intro conjI l la q len v)
qed

end
